theory Spec2Isabelle
  imports Main "HOL-Library.AList"
begin

section \<open>Values, exceptions and observable events\<close>

text \<open>
  The dispatcher of \<^verbatim>\<open>scripts/jobs/main_parallel.py\<close> handles job arguments, shared
  values and results as opaque Python objects. The model keeps the shapes the code
  distinguishes: \<^verbatim>\<open>if shared_vars:\<close> tests Python truthiness, and
  \<^verbatim>\<open>args + (resp_dict,)\<close> appends a reference to the shared result dictionary.
\<close>

datatype val =
    NoneV
  | BoolV bool
  | IntV int
  | StrV string
  | TupleV "val list"
  | ListV "val list"
  | DictV "(val \<times> val) list"
  | SinkRef
  | LockRef

text \<open>Python truthiness of the values above (\<^verbatim>\<open>bool(x)\<close>).\<close>

fun truthy :: "val \<Rightarrow> bool" where
  "truthy NoneV = False"
| "truthy (BoolV b) = b"
| "truthy (IntV i) = (i \<noteq> 0)"
| "truthy (StrV s) = (s \<noteq> [])"
| "truthy (TupleV xs) = (xs \<noteq> [])"
| "truthy (ListV xs) = (xs \<noteq> [])"
| "truthy (DictV kvs) = (kvs \<noteq> [])"
| "truthy SinkRef = True"
| "truthy LockRef = True"

type_synonym sink = "(val \<times> val) list"

datatype exn =
    NotImplementedError string
  | ValueError string
  | NameError string
  | JobError string

datatype event =
    LogError exn
  | LogDebug int int
  | Sleep int
  | LogInfo
  | GetSharedVars val
  | InitChild nat "val list"
  | Invoke nat "val list"
  | Acquire
  | Work "val list" "(string \<times> val) list"
  | Release

section \<open>The class \<^verbatim>\<open>ParallelProcessing\<close>\<close>

text \<open>
  The fields \<^verbatim>\<open>_n_jobs\<close>, \<^verbatim>\<open>_waiting_time\<close> and \<^verbatim>\<open>init_args\<close>, and
  the three methods a subclass overrides: \<^verbatim>\<open>process\<close> (the job logic, which writes to
  the result dictionary it receives or raises), \<^verbatim>\<open>critical_section\<close> (which works on
  shared state and returns a value or raises) and \<^verbatim>\<open>get_shared_vars\<close>.
\<close>

record ParallelProcessing =
  n_jobs :: int
  waiting_time :: int
  init_args :: "val list"
  process :: "val list \<Rightarrow> sink \<Rightarrow> exn + sink"
  critical_section :: "val list \<Rightarrow> (string \<times> val) list \<Rightarrow> sink \<Rightarrow> (exn + val) \<times> sink"
  get_shared_vars :: "val \<Rightarrow> val list"

definition not_defined :: string where
  "not_defined = ''Process not defined ('NotImplementedError' exception).''"

text \<open>The bodies of the base class: lines 73-82, 118-119 and 121-122.\<close>

definition process_base :: "val list \<Rightarrow> sink \<Rightarrow> exn + sink" where
  "process_base args d = Inl (NotImplementedError not_defined)"

definition critical_section_base ::
    "val list \<Rightarrow> (string \<times> val) list \<Rightarrow> sink \<Rightarrow> (exn + val) \<times> sink" where
  "critical_section_base args kwargs sh = (Inl (NotImplementedError not_defined), sh)"

definition get_shared_vars_base :: "val \<Rightarrow> val list" where
  "get_shared_vars_base shared_vars = []"

text \<open>
  \<^verbatim>\<open>__init__(self, n_jobs=-1, waiting_time=1)\<close>, lines 57-71. The host's
  \<^verbatim>\<open>cpu_count()\<close> is a parameter; the methods are those of the class instantiated.
\<close>

definition init ::
    "int \<Rightarrow> (val list \<Rightarrow> sink \<Rightarrow> exn + sink) \<Rightarrow>
     (val list \<Rightarrow> (string \<times> val) list \<Rightarrow> sink \<Rightarrow> (exn + val) \<times> sink) \<Rightarrow>
     (val \<Rightarrow> val list) \<Rightarrow> int \<Rightarrow> int \<Rightarrow> ParallelProcessing" where
  "init cpu_count proc crit gsv n w =
     \<lparr> n_jobs = (if n \<ge> 0 then n else cpu_count),
       waiting_time = (if w \<ge> 0 then w else 60 * 60),
       init_args = [],
       process = proc,
       critical_section = crit,
       get_shared_vars = gsv \<rparr>"

definition init_base :: "int \<Rightarrow> int \<Rightarrow> int \<Rightarrow> ParallelProcessing" where
  "init_base cpu_count n w =
     init cpu_count process_base critical_section_base get_shared_vars_base n w"

section \<open>The state of one call of \<^verbatim>\<open>run\<close>\<close>

text \<open>
  A submitted job passes through \<^verbatim>\<open>_execute\<close> (lines 84-94) in a pool worker:
  it waits in the pool's queue, runs \<^verbatim>\<open>self.process(*args)\<close>, and then performs
  \<^verbatim>\<open>self._queue.value -= 1\<close>, which on a manager \<^verbatim>\<open>Value\<close> is a read of the
  attribute followed by a write of the decremented number. A job whose logic raised waits
  for the pool to call \<^verbatim>\<open>_error_callback\<close>.
\<close>

datatype tstate = Queued | Executing | Raised exn | Finished | Fetched int | Done

datatype task = Task (targs: "val list") (tstate: tstate)

text \<open>
  The control thread inside the submission loop of lines 150-162: polling the counter,
  between the read and the write of \<^verbatim>\<open>self._queue.value += 1\<close>, about to call
  \<^verbatim>\<open>apply_async\<close>, and, after the loop and \<^verbatim>\<open>pool.close()\<close>, in
  \<^verbatim>\<open>pool.join()\<close>.
\<close>

datatype pc = Poll | Fetch | Store int | Submit | Join

datatype status = Running | Exited int | Returns sink | Raises exn

record state =
  queue_value :: int
  resp_dict :: sink
  todo :: "val list list"
  pc :: pc
  tasks :: "task list"
  processes :: nat
  par_lock :: "val option list"
  events :: "event list"
  status :: status

datatype action = Main | Worker nat

subsection \<open>Before the loop: lines 135-148\<close>

text \<open>
  \<^verbatim>\<open>init_child(self, par_lock_, *args)\<close> stores its first argument in the worker's
  global \<^verbatim>\<open>par_lock\<close>; until then the name is undefined in that worker.
\<close>

fun init_child :: "val list \<Rightarrow> val option" where
  "init_child [] = None"
| "init_child (lock # args) = Some lock"

text \<open>Lines 140-143; the events record whether \<^verbatim>\<open>get_shared_vars\<close> was called.\<close>

definition run_init_args :: "ParallelProcessing \<Rightarrow> val \<Rightarrow> event list \<times> val list" where
  "run_init_args self shared_vars =
     (if truthy shared_vars
      then ([GetSharedVars shared_vars], LockRef # get_shared_vars self shared_vars)
      else ([], [LockRef]))"

text \<open>
  Lines 145-146. \<^verbatim>\<open>multiprocessing.Pool\<close> and \<^verbatim>\<open>ThreadPool\<close> raise
  \<^verbatim>\<open>ValueError("Number of processes must be at least 1")\<close> when \<^verbatim>\<open>processes < 1\<close>.
  Only the process pool is given \<^verbatim>\<open>initializer\<close> and \<^verbatim>\<open>initargs\<close>; it runs the
  initializer once in each worker it starts.
\<close>

definition run_start :: "ParallelProcessing \<Rightarrow> val list list \<Rightarrow> bool \<Rightarrow> val \<Rightarrow> state" where
  "run_start self args_list use_multithreading shared_vars =
     (let (ev, ia) = run_init_args self shared_vars;
          k = nat (n_jobs self);
          base = \<lparr> queue_value = 0, resp_dict = [], todo = args_list, pc = Poll,
                   tasks = [], processes = 0, par_lock = [], events = ev,
                   status = Running \<rparr>
      in if n_jobs self < 1
         then base \<lparr> status := Raises (ValueError ''Number of processes must be at least 1'') \<rparr>
         else if \<not> use_multithreading
         then base \<lparr> processes := k,
                     par_lock := replicate k (init_child ia),
                     events := ev @ map (\<lambda>w. InitChild w ia) [0..<k] \<rparr>
         else base \<lparr> processes := k, par_lock := replicate k None \<rparr>)"

subsection \<open>The steps of the control thread and of the workers\<close>

text \<open>\<^verbatim>\<open>_error_callback\<close>, lines 96-106: log the error, then \<^verbatim>\<open>os._exit(1)\<close>.\<close>

definition error_callback :: "exn \<Rightarrow> state \<Rightarrow> state" where
  "error_callback result s = s \<lparr> events := events s @ [LogError result], status := Exited 1 \<rparr>"

definition all_done :: "state \<Rightarrow> bool" where
  "all_done s = list_all (\<lambda>t. tstate t = Done) (tasks s)"

text \<open>Lines 150-169, one atomic action of the control thread at a time.\<close>

definition main_step :: "ParallelProcessing \<Rightarrow> state \<Rightarrow> state" where
  "main_step self s =
     (case pc s of
        Poll \<Rightarrow>
          (case todo s of
             [] \<Rightarrow> s \<lparr> pc := Join \<rparr>
           | args # rest \<Rightarrow>
               if queue_value s < n_jobs self then s \<lparr> pc := Fetch \<rparr>
               else s \<lparr> events := events s @
                          [LogDebug (n_jobs self) (waiting_time self),
                           Sleep (waiting_time self)] \<rparr>)
      | Fetch \<Rightarrow> s \<lparr> pc := Store (queue_value s) \<rparr>
      | Store v \<Rightarrow> s \<lparr> queue_value := v + 1, pc := Submit \<rparr>
      | Submit \<Rightarrow>
          (case todo s of
             [] \<Rightarrow> s
           | args # rest \<Rightarrow>
               s \<lparr> tasks := tasks s @ [Task (args @ [SinkRef]) Queued],
                   todo := rest, pc := Poll \<rparr>)
      | Join \<Rightarrow>
          if all_done s
          then s \<lparr> events := events s @ [LogInfo], status := Returns (resp_dict s) \<rparr>
          else s)"

text \<open>
  The workers that are occupied: a pool of \<^verbatim>\<open>processes\<close> workers runs at most that
  many jobs at once and takes them from its queue in submission order.
\<close>

definition occupies :: "task \<Rightarrow> bool" where
  "occupies t = (case tstate t of Executing \<Rightarrow> True | Finished \<Rightarrow> True
                 | Fetched v \<Rightarrow> True | _ \<Rightarrow> False)"

definition busy :: "state \<Rightarrow> nat" where
  "busy s = length (filter occupies (tasks s))"

definition set_tstate :: "nat \<Rightarrow> tstate \<Rightarrow> state \<Rightarrow> state" where
  "set_tstate i st s = s \<lparr> tasks := (tasks s) [i := Task (targs (tasks s ! i)) st] \<rparr>"

definition task_step :: "ParallelProcessing \<Rightarrow> nat \<Rightarrow> state \<Rightarrow> state" where
  "task_step self i s =
     (if i \<ge> length (tasks s) then s
      else
        (case tstate (tasks s ! i) of
           Queued \<Rightarrow>
             if busy s < processes s
                \<and> list_all (\<lambda>t. tstate t \<noteq> Queued) (take i (tasks s))
             then (set_tstate i Executing s)
                    \<lparr> events := events s @ [Invoke i (targs (tasks s ! i))] \<rparr>
             else s
         | Executing \<Rightarrow>
             (case process self (targs (tasks s ! i)) (resp_dict s) of
                Inl e \<Rightarrow> set_tstate i (Raised e) s
              | Inr d \<Rightarrow> (set_tstate i Finished s) \<lparr> resp_dict := d \<rparr>)
         | Finished \<Rightarrow> set_tstate i (Fetched (queue_value s)) s
         | Fetched v \<Rightarrow> (set_tstate i Done s) \<lparr> queue_value := v - 1 \<rparr>
         | Raised e \<Rightarrow> error_callback e s
         | Done \<Rightarrow> s))"

text \<open>
  A schedule is the order in which the control thread and the jobs take their steps; an
  action that cannot run yet (a full pool, an unfinished drain) leaves the state as it is,
  and nothing runs once the process has exited or \<^verbatim>\<open>run\<close> has returned or raised.
\<close>

definition step :: "ParallelProcessing \<Rightarrow> action \<Rightarrow> state \<Rightarrow> state" where
  "step self a s =
     (if status s \<noteq> Running then s
      else (case a of Main \<Rightarrow> main_step self s | Worker i \<Rightarrow> task_step self i s))"

definition exec :: "ParallelProcessing \<Rightarrow> action list \<Rightarrow> state \<Rightarrow> state" where
  "exec self sched s = fold (step self) sched s"

subsection \<open>\<^verbatim>\<open>_execute\<close> read sequentially\<close>

text \<open>
  Lines 93-94 with nothing else running in between, on the result dictionary and the
  counter: an exception of the job logic leaves \<^verbatim>\<open>_execute\<close> before the decrement.
\<close>

definition execute :: "ParallelProcessing \<Rightarrow> val list \<Rightarrow> sink \<times> int \<Rightarrow> exn + sink \<times> int" where
  "execute self args dq =
     (case process self args (fst dq) of
        Inl e \<Rightarrow> Inl e
      | Inr d \<Rightarrow> Inr (d, snd dq - 1))"

section \<open>The critical-section gate\<close>

text \<open>
  \<^verbatim>\<open>_enter_crit_sec\<close>, lines 112-116, as one worker runs it. The worker's global
  \<^verbatim>\<open>par_lock\<close> is the handle its initializer stored, if any; reading an undefined
  global raises \<^verbatim>\<open>NameError\<close>. \<^verbatim>\<open>with par_lock:\<close> acquires the lock (waiting
  while another worker holds it), runs the body and releases the lock when the body is left,
  by its end or by an exception, which then propagates.
\<close>

record gate =
  held :: bool
  shared :: sink
  trace :: "event list"

datatype outcome = Blocked | Raise exn | Return val

definition enter_crit_sec ::
    "ParallelProcessing \<Rightarrow> val option \<Rightarrow> val list \<Rightarrow> (string \<times> val) list \<Rightarrow> gate
     \<Rightarrow> outcome \<times> gate" where
  "enter_crit_sec self lock args kwargs g =
     (case lock of
        None \<Rightarrow> (Raise (NameError ''name 'par_lock' is not defined''), g)
      | Some l \<Rightarrow>
          if held g then (Blocked, g)
          else
            (let g1 = g \<lparr> held := True, trace := trace g @ [Acquire] \<rparr>;
                 (res, sh) = critical_section self args kwargs (shared g1);
                 g2 = g1 \<lparr> shared := sh, trace := trace g1 @ [Work args kwargs] \<rparr>;
                 g3 = g2 \<lparr> held := False, trace := trace g2 @ [Release] \<rparr>
             in (case res of Inl e \<Rightarrow> (Raise e, g3) | Inr v \<Rightarrow> (Return v, g3))))"

section \<open>What a run has submitted, invoked and written\<close>

text \<open>
  The argument tuple \<^verbatim>\<open>args + (resp_dict,)\<close> given to \<^verbatim>\<open>apply_async\<close>, the
  argument tuples submitted so far in submission order, the number of jobs whose logic is
  running, and the calls of the job logic recorded so far.
\<close>

definition with_sink :: "val list \<Rightarrow> val list" where
  "with_sink args = args @ [SinkRef]"

definition submitted :: "state \<Rightarrow> val list list" where
  "submitted s = map targs (tasks s)"

definition executing :: "state \<Rightarrow> nat" where
  "executing s = length (filter (\<lambda>t. tstate t = Executing) (tasks s))"

fun is_invoke :: "event \<Rightarrow> bool" where
  "is_invoke (Invoke i args) = True"
| "is_invoke e = False"

definition invoked :: "state \<Rightarrow> event list" where
  "invoked s = filter is_invoke (events s)"

text \<open>
  The schedule in which every job is submitted and runs to its end before the control
  thread polls again, for \<open>m\<close> jobs of which the first becomes task \<open>k\<close>, and the
  dictionary the jobs leave behind when they run one after another in input order.
\<close>

fun serial :: "nat \<Rightarrow> nat \<Rightarrow> action list" where
  "serial k 0 = [Main, Main]"
| "serial k (Suc m) =
     [Main, Main, Main, Main, Worker k, Worker k, Worker k, Worker k] @ serial (Suc k) m"

fun collect :: "ParallelProcessing \<Rightarrow> val list list \<Rightarrow> sink \<Rightarrow> sink" where
  "collect self [] d = d"
| "collect self (a # as) d =
     (case process self (with_sink a) d of Inl e \<Rightarrow> d | Inr d' \<Rightarrow> collect self as d')"

subsection \<open>Invariants of the steps\<close>

definition failed_at :: "nat \<Rightarrow> exn \<Rightarrow> state \<Rightarrow> bool" where
  "failed_at i e s =
     (i < length (tasks s) \<and> tstate (tasks s ! i) = Raised e
      \<and> (status s = Running \<or> status s = Exited 1))"

definition pool_inv :: "state \<Rightarrow> bool" where
  "pool_inv s = (busy s \<le> processes s)"

definition order_inv :: "val list list \<Rightarrow> state \<Rightarrow> bool" where
  "order_inv al s =
     (submitted s @ map with_sink (todo s) = map with_sink al
      \<and> (pc s = Join \<longrightarrow> todo s = [])
      \<and> ((\<exists>d. status s = Returns d) \<longrightarrow> pc s = Join))"

text \<open>
  What survives lost updates of the counter: it never exceeds the worker limit, nor does
  any value a job or the control thread has read and not yet written back.
\<close>

definition counter_inv :: "ParallelProcessing \<Rightarrow> state \<Rightarrow> bool" where
  "counter_inv self s =
     (queue_value s \<le> n_jobs self
      \<and> list_all (\<lambda>t. \<forall>v. tstate t = Fetched v \<longrightarrow> v \<le> n_jobs self) (tasks s)
      \<and> (pc s = Fetch \<longrightarrow> queue_value s < n_jobs self)
      \<and> (\<forall>v. pc s = Store v \<longrightarrow> v < n_jobs self))"

section \<open>Example subclasses and runs\<close>

text \<open>
  A job logic that stores its first argument under itself in the result dictionary and
  raises on the job named \<^verbatim>\<open>"bad"\<close>; one that stores twice its integer argument and
  never raises; and a critical section that counts its calls in the shared state and returns
  the new count, raising when called with no argument.
\<close>

fun process_ex :: "val list \<Rightarrow> sink \<Rightarrow> exn + sink" where
  "process_ex (StrV name # rest) d =
     (if name = ''bad'' then Inl (JobError name)
      else Inr (AList.update (StrV name) (StrV name) d))"
| "process_ex args d = Inr d"

fun process_double :: "val list \<Rightarrow> sink \<Rightarrow> exn + sink" where
  "process_double (IntV i # rest) d = Inr (AList.update (IntV i) (IntV (2 * i)) d)"
| "process_double args d = Inr d"

fun critical_section_ex ::
    "val list \<Rightarrow> (string \<times> val) list \<Rightarrow> sink \<Rightarrow> (exn + val) \<times> sink" where
  "critical_section_ex [] kwargs sh = (Inl (JobError ''no argument''), sh)"
| "critical_section_ex (a # args) kwargs sh =
     (Inr (IntV (int (length sh) + 1)), sh @ [(a, IntV (int (length sh) + 1))])"

definition get_shared_vars_ex :: "val \<Rightarrow> val list" where
  "get_shared_vars_ex shared_vars = [shared_vars]"

definition init_ex :: "int \<Rightarrow> int \<Rightarrow> int \<Rightarrow> ParallelProcessing" where
  "init_ex cpu_count n w =
     init cpu_count process_ex critical_section_ex get_shared_vars_ex n w"

definition init_double :: "int \<Rightarrow> int \<Rightarrow> int \<Rightarrow> ParallelProcessing" where
  "init_double cpu_count n w =
     init cpu_count process_double critical_section_ex get_shared_vars_ex n w"

text \<open>A pool of one worker that is busy while a second job waits to be admitted.\<close>

definition full_pool :: state where
  "full_pool =
     \<lparr> queue_value = 1, resp_dict = [], todo = [[StrV ''B'']], pc = Poll,
       tasks = [Task [StrV ''A'', SinkRef] Executing], processes = 1,
       par_lock = [Some LockRef], events = [], status = Running \<rparr>"

text \<open>A run of two jobs on two workers in which the logic of the first is about to raise.\<close>

definition failing_run :: state where
  "failing_run =
     exec (init_ex 4 2 1) [Main, Main, Main, Main, Worker 0]
       (run_start (init_ex 4 2 1) [[StrV ''bad''], [StrV ''B'']] False NoneV)"

text \<open>
  A schedule for two jobs on two workers: the first job reads the counter, the control
  thread admits the second job, and only then the first job writes its decrement.
\<close>

definition lost_update_schedule :: "action list" where
  "lost_update_schedule =
     [Main, Main, Main, Main, Worker 0, Worker 0, Worker 0,
      Main, Main, Main, Main, Worker 0,
      Worker 1, Worker 1, Worker 1, Worker 1, Main, Main]"

section \<open>Basic facts\<close>

lemmas run_defs = step_def main_step_def task_step_def run_start_def run_init_args_def
  init_ex_def init_double_def init_base_def set_tstate_def busy_def occupies_def
  error_callback_def all_done_def get_shared_vars_ex_def submitted_def with_sink_def
  executing_def invoked_def

lemma init_simps [simp]:
  "n_jobs (init c p cr g n w) = (if n \<ge> 0 then n else c)"
  "waiting_time (init c p cr g n w) = (if w \<ge> 0 then w else 3600)"
  "init_args (init c p cr g n w) = []"
  "process (init c p cr g n w) = p"
  "critical_section (init c p cr g n w) = cr"
  "get_shared_vars (init c p cr g n w) = g"
  by (simp_all add: init_def)

lemma exec_Nil [simp]: "exec self [] s = s"
  by (simp add: exec_def)

lemma exec_Cons [simp]: "exec self (a # sched) s = exec self sched (step self a s)"
  by (simp add: exec_def)

lemma exec_append: "exec self (xs @ ys) s = exec self ys (exec self xs s)"
  by (simp add: exec_def)

lemma step_stopped: "status s \<noteq> Running \<Longrightarrow> step self a s = s"
  by (simp add: step_def)

lemma exec_stopped: "status s \<noteq> Running \<Longrightarrow> exec self sched s = s"
  by (induction sched) (simp_all add: step_stopped)

lemma set_tstate_simps [simp]:
  "tasks (set_tstate i st s) = (tasks s) [i := Task (targs (tasks s ! i)) st]"
  "status (set_tstate i st s) = status s"
  "queue_value (set_tstate i st s) = queue_value s"
  "resp_dict (set_tstate i st s) = resp_dict s"
  "todo (set_tstate i st s) = todo s"
  "pc (set_tstate i st s) = pc s"
  "processes (set_tstate i st s) = processes s"
  "events (set_tstate i st s) = events s"
  "par_lock (set_tstate i st s) = par_lock s"
  by (simp_all add: set_tstate_def)

lemma run_start_simps:
  "1 \<le> n_jobs self \<Longrightarrow> tasks (run_start self al mt sv) = []"
  "1 \<le> n_jobs self \<Longrightarrow> todo (run_start self al mt sv) = al"
  "1 \<le> n_jobs self \<Longrightarrow> pc (run_start self al mt sv) = Poll"
  "1 \<le> n_jobs self \<Longrightarrow> status (run_start self al mt sv) = Running"
  "1 \<le> n_jobs self \<Longrightarrow> queue_value (run_start self al mt sv) = 0"
  "1 \<le> n_jobs self \<Longrightarrow> resp_dict (run_start self al mt sv) = []"
  "1 \<le> n_jobs self \<Longrightarrow> processes (run_start self al mt sv) = nat (n_jobs self)"
  by (simp_all add: run_start_def Let_def split: prod.splits)

subsection \<open>A job that raised stays raised until the process exits\<close>

lemma failed_at_main: "failed_at i e s \<Longrightarrow> failed_at i e (main_step self s)"
  by (auto simp add: failed_at_def main_step_def all_done_def list_all_length nth_append
      split: pc.splits list.splits)

lemma failed_at_task: "failed_at i e s \<Longrightarrow> failed_at i e (task_step self j s)"
  by (auto simp add: failed_at_def task_step_def error_callback_def nth_list_update
      split: tstate.splits sum.splits)

lemma failed_at_step: "failed_at i e s \<Longrightarrow> failed_at i e (step self a s)"
  by (cases a) (simp_all add: step_def failed_at_main failed_at_task)

lemma failed_at_exec: "failed_at i e s \<Longrightarrow> failed_at i e (exec self sched s)"
  by (induction sched arbitrary: s) (simp_all add: failed_at_step)

lemma failed_at_callback: "failed_at i e s \<Longrightarrow> status (step self (Worker i) s) = Exited 1"
  by (auto simp add: failed_at_def step_def task_step_def error_callback_def)

subsection \<open>The pool never runs more jobs than it has workers\<close>

lemma filter_update_count:
  "i < length xs \<Longrightarrow>
   length (filter P (xs[i := y])) + (if P (xs ! i) then 1 else 0) =
   length (filter P xs) + (if P y then 1 else 0)"
proof (induction xs arbitrary: i)
  case Nil
  then show ?case by simp
next
  case (Cons x xs)
  then show ?case by (cases i) auto
qed

lemma occupies_tstate:
  "occupies t = (tstate t = Executing \<or> tstate t = Finished \<or> (\<exists>v. tstate t = Fetched v))"
  by (cases t; cases "tstate t") (auto simp add: occupies_def)

lemma busy_set_tstate:
  "i < length (tasks s) \<Longrightarrow>
   busy (set_tstate i st s) + (if occupies (tasks s ! i) then 1 else 0) =
   busy s + (if occupies (Task (targs (tasks s ! i)) st) then 1 else 0)"
  unfolding busy_def set_tstate_simps by (rule filter_update_count)

lemma busy_simps [simp]:
  "busy (s \<lparr> events := ev \<rparr>) = busy s"
  "busy (s \<lparr> resp_dict := d \<rparr>) = busy s"
  "busy (s \<lparr> queue_value := q \<rparr>) = busy s"
  "busy (s \<lparr> pc := p \<rparr>) = busy s"
  "busy (s \<lparr> status := x \<rparr>) = busy s"
  "busy (s \<lparr> todo := td \<rparr>) = busy s"
  by (simp_all add: busy_def)

lemma pool_inv_main: "pool_inv s \<Longrightarrow> pool_inv (main_step self s)"
  by (auto simp add: pool_inv_def main_step_def busy_def occupies_def
      split: pc.splits list.splits)

lemma pool_inv_task: "pool_inv s \<Longrightarrow> pool_inv (task_step self j s)"
proof (cases "j < length (tasks s)")
  case False
  assume "pool_inv s"
  with False show ?thesis by (simp add: task_step_def)
next
  case True
  assume p: "pool_inv s"
  note b = busy_set_tstate [OF True]
  show ?thesis
  proof (cases "tstate (tasks s ! j)")
    case Queued
    with True p b [of Executing] show ?thesis
      by (auto simp add: task_step_def pool_inv_def occupies_tstate)
  next
    case Executing
    show ?thesis
    proof (cases "process self (targs (tasks s ! j)) (resp_dict s)")
      case (Inl e)
      with Executing True p b [of "Raised e"] show ?thesis
        by (auto simp add: task_step_def pool_inv_def occupies_tstate)
    next
      case (Inr d)
      with Executing True p b [of Finished] show ?thesis
        by (auto simp add: task_step_def pool_inv_def occupies_tstate)
    qed
  next
    case (Raised e)
    with True p show ?thesis
      by (simp add: task_step_def pool_inv_def error_callback_def busy_def)
  next
    case Finished
    with True p b [of "Fetched (queue_value s)"] show ?thesis
      by (auto simp add: task_step_def pool_inv_def occupies_tstate)
  next
    case (Fetched v)
    with True p b [of Done] show ?thesis
      by (auto simp add: task_step_def pool_inv_def occupies_tstate)
  next
    case Done
    with True p show ?thesis by (simp add: task_step_def)
  qed
qed

lemma pool_inv_step: "pool_inv s \<Longrightarrow> pool_inv (step self a s)"
  by (cases a) (simp_all add: step_def pool_inv_main pool_inv_task)

lemma pool_inv_exec: "pool_inv s \<Longrightarrow> pool_inv (exec self sched s)"
  by (induction sched arbitrary: s) (simp_all add: pool_inv_step)

lemma pool_inv_start: "pool_inv (run_start self al mt sv)"
  by (simp add: run_start_def Let_def pool_inv_def busy_def split: prod.splits)

lemma processes_main [simp]: "processes (main_step self s) = processes s"
  by (simp add: main_step_def all_done_def split: pc.splits list.splits)

lemma processes_task [simp]: "processes (task_step self j s) = processes s"
  by (simp add: task_step_def error_callback_def split: tstate.splits sum.splits)

lemma processes_step [simp]: "processes (step self a s) = processes s"
  by (cases a) (simp_all add: step_def)

lemma processes_exec [simp]: "processes (exec self sched s) = processes s"
  by (induction sched arbitrary: s) simp_all

lemma executing_le_busy: "executing s \<le> busy s"
proof -
  have "filter (\<lambda>t. tstate t = Executing) (tasks s) =
        filter (\<lambda>t. tstate t = Executing) (filter occupies (tasks s))"
    by (auto simp add: occupies_tstate intro: filter_cong)
  then show ?thesis
    unfolding executing_def busy_def by (metis length_filter_le)
qed

lemma executing_bound:
  assumes "1 \<le> n_jobs self"
  shows "executing (exec self sched (run_start self al mt sv)) \<le> nat (n_jobs self)"
proof -
  have "pool_inv (exec self sched (run_start self al mt sv))"
    by (rule pool_inv_exec) (rule pool_inv_start)
  then have "busy (exec self sched (run_start self al mt sv)) \<le> nat (n_jobs self)"
    using assms by (simp add: pool_inv_def run_start_simps)
  then show ?thesis
    using executing_le_busy [of "exec self sched (run_start self al mt sv)"] by simp
qed

subsection \<open>The counter never exceeds the worker limit\<close>

lemma counter_inv_main: "counter_inv self s \<Longrightarrow> counter_inv self (main_step self s)"
  by (auto simp add: counter_inv_def main_step_def split: pc.splits list.splits)

lemma list_all_update: "list_all P xs \<Longrightarrow> P y \<Longrightarrow> list_all P (xs[i := y])"
  using set_update_subset_insert [of xs i y] by (auto simp add: list_all_iff)

lemma fetched_le:
  "counter_inv self s \<Longrightarrow> j < length (tasks s) \<Longrightarrow> tstate (tasks s ! j) = Fetched v
   \<Longrightarrow> v \<le> n_jobs self"
  by (auto simp add: counter_inv_def list_all_length)

lemma counter_inv_set_tstate:
  "counter_inv self s \<Longrightarrow> \<forall>v. st = Fetched v \<longrightarrow> v \<le> n_jobs self
   \<Longrightarrow> counter_inv self (set_tstate j st s)"
  by (simp add: counter_inv_def list_all_update)

lemma counter_inv_task: "counter_inv self s \<Longrightarrow> counter_inv self (task_step self j s)"
proof (cases "j < length (tasks s)")
  case False
  assume "counter_inv self s"
  with False show ?thesis by (simp add: task_step_def)
next
  case True
  assume c: "counter_inv self s"
  note u = counter_inv_set_tstate [OF c, of _ j]
  show ?thesis
  proof (cases "tstate (tasks s ! j)")
    case Queued
    with True c u [of Executing] show ?thesis
      by (simp add: task_step_def counter_inv_def)
  next
    case Executing
    with True u [of Finished] u [of "Raised e" for e] show ?thesis
      by (simp add: task_step_def counter_inv_def split: sum.splits)
  next
    case (Raised e)
    with True c show ?thesis
      by (simp add: task_step_def counter_inv_def error_callback_def)
  next
    case Finished
    with True c u [of "Fetched (queue_value s)"] show ?thesis
      by (simp add: task_step_def counter_inv_def)
  next
    case (Fetched v)
    with True c u [of Done] fetched_le [OF c True, of v] show ?thesis
      by (simp add: task_step_def counter_inv_def split: pc.splits)
  next
    case Done
    with True c show ?thesis by (simp add: task_step_def)
  qed
qed

lemma counter_inv_step: "counter_inv self s \<Longrightarrow> counter_inv self (step self a s)"
  by (cases a) (simp_all add: step_def counter_inv_main counter_inv_task)

lemma counter_inv_exec: "counter_inv self s \<Longrightarrow> counter_inv self (exec self sched s)"
  by (induction sched arbitrary: s) (simp_all add: counter_inv_step)

lemma counter_le_limit:
  assumes "0 \<le> n_jobs self"
  shows "queue_value (exec self sched (run_start self al mt sv)) \<le> n_jobs self"
proof -
  have "counter_inv self (run_start self al mt sv)"
    using assms by (simp add: counter_inv_def run_start_def Let_def split: prod.splits)
  then have "counter_inv self (exec self sched (run_start self al mt sv))"
    by (rule counter_inv_exec)
  then show ?thesis
    by (simp add: counter_inv_def)
qed

subsection \<open>Jobs are submitted in input order\<close>

lemma map_targs_update [simp]:
  "map targs (xs[i := Task (targs (xs ! i)) st]) = map targs xs"
  by (induction xs arbitrary: i) (auto split: nat.splits)

lemma order_inv_main:
  "order_inv al s \<Longrightarrow> status s = Running \<Longrightarrow> order_inv al (main_step self s)"
  by (auto simp add: order_inv_def main_step_def submitted_def with_sink_def
      split: pc.splits list.splits)

lemma order_inv_task:
  "order_inv al s \<Longrightarrow> status s = Running \<Longrightarrow> order_inv al (task_step self j s)"
  by (auto simp add: order_inv_def task_step_def submitted_def error_callback_def
      split: tstate.splits sum.splits)

lemma order_inv_step: "order_inv al s \<Longrightarrow> order_inv al (step self a s)"
  by (cases a) (simp_all add: step_def order_inv_main order_inv_task)

lemma order_inv_exec: "order_inv al s \<Longrightarrow> order_inv al (exec self sched s)"
  by (induction sched arbitrary: s) (simp_all add: order_inv_step)

lemma order_inv_start: "order_inv al (run_start self al mt sv)"
  by (simp add: order_inv_def run_start_def Let_def submitted_def split: prod.splits)

lemma submitted_prefix:
  "submitted (exec self sched (run_start self al mt sv)) =
   map with_sink (take (length (tasks (exec self sched (run_start self al mt sv)))) al)"
proof -
  let ?s = "exec self sched (run_start self al mt sv)"
  have "order_inv al ?s"
    by (rule order_inv_exec) (rule order_inv_start)
  then have "submitted ?s @ map with_sink (todo ?s) = map with_sink al"
    by (simp add: order_inv_def)
  then have "submitted ?s = take (length (submitted ?s)) (map with_sink al)"
    by (metis append_eq_conv_conj)
  then show ?thesis
    by (simp add: take_map submitted_def)
qed

lemma submitted_all:
  assumes "status (exec self sched (run_start self al mt sv)) = Returns d"
  shows "submitted (exec self sched (run_start self al mt sv)) = map with_sink al"
proof -
  let ?s = "exec self sched (run_start self al mt sv)"
  have "order_inv al ?s"
    by (rule order_inv_exec) (rule order_inv_start)
  with assms show ?thesis
    by (auto simp add: order_inv_def)
qed

subsection \<open>The serial schedule\<close>

lemma all_done_idle: "all_done s \<Longrightarrow> busy s = 0"
  by (auto simp add: all_done_def busy_def list_all_iff occupies_tstate filter_empty_conv)

lemma all_done_no_queued: "all_done s \<Longrightarrow> list_all (\<lambda>t. tstate t \<noteq> Queued) (tasks s)"
  by (auto simp add: all_done_def list_all_iff)

lemma serial_one:
  assumes "status s = Running" and "pc s = Poll" and "todo s = a # rest"
    and "queue_value s = 0" and "1 \<le> n_jobs self" and "1 \<le> processes s"
    and "all_done s" and "process self (with_sink a) (resp_dict s) = Inr d"
  shows "exec self [Main, Main, Main, Main, Worker (length (tasks s)), Worker (length (tasks s)),
                    Worker (length (tasks s)), Worker (length (tasks s))] s =
         s \<lparr> resp_dict := d, todo := rest,
             tasks := tasks s @ [Task (with_sink a) Done],
             events := events s @ [Invoke (length (tasks s)) (with_sink a)] \<rparr>"
  using assms all_done_idle [OF assms(7)] all_done_no_queued [OF assms(7)]
  by (simp add: step_def main_step_def task_step_def with_sink_def busy_def occupies_def)

lemma serial_run:
  assumes "\<forall>a d. \<exists>d'. process self a d = Inr d'"
    and "1 \<le> n_jobs self"
  shows "status s = Running \<Longrightarrow> pc s = Poll \<Longrightarrow> todo s = jobs \<Longrightarrow> queue_value s = 0
         \<Longrightarrow> 1 \<le> processes s \<Longrightarrow> all_done s
         \<Longrightarrow> status (exec self (serial (length (tasks s)) (length jobs)) s) =
               Returns (collect self jobs (resp_dict s))
             \<and> submitted (exec self (serial (length (tasks s)) (length jobs)) s) =
               submitted s @ map with_sink jobs
             \<and> queue_value (exec self (serial (length (tasks s)) (length jobs)) s) = 0"
proof (induction jobs arbitrary: s)
  case Nil
  then show ?case
    by (simp add: step_def main_step_def all_done_def submitted_def)
next
  case (Cons a jobs)
  from assms(1) obtain d where d: "process self (with_sink a) (resp_dict s) = Inr d"
    by blast
  let ?k = "length (tasks s)"
  let ?s1 = "s \<lparr> resp_dict := d, todo := jobs,
               tasks := tasks s @ [Task (with_sink a) Done],
               events := events s @ [Invoke ?k (with_sink a)] \<rparr>"
  have one: "exec self [Main, Main, Main, Main, Worker ?k, Worker ?k, Worker ?k, Worker ?k] s = ?s1"
    using Cons.prems assms(2) d by (intro serial_one) simp_all
  have split: "exec self (serial ?k (length (a # jobs))) s =
               exec self (serial (length (tasks ?s1)) (length jobs)) ?s1"
    using one by (simp only: list.size serial.simps exec_append add_Suc_right add_0_right) simp
  have ih: "status (exec self (serial (length (tasks ?s1)) (length jobs)) ?s1) =
               Returns (collect self jobs (resp_dict ?s1))
             \<and> submitted (exec self (serial (length (tasks ?s1)) (length jobs)) ?s1) =
               submitted ?s1 @ map with_sink jobs
             \<and> queue_value (exec self (serial (length (tasks ?s1)) (length jobs)) ?s1) = 0"
    using Cons.prems by (intro Cons.IH) (simp_all add: all_done_def)
  show ?case
    unfolding split using ih d by (simp add: submitted_def)
qed

lemma serial_from_start:
  assumes "\<forall>a d. \<exists>d'. process self a d = Inr d'" and "1 \<le> n_jobs self"
  shows "status (exec self (serial 0 (length al)) (run_start self al mt sv)) =
           Returns (collect self al [])
         \<and> submitted (exec self (serial 0 (length al)) (run_start self al mt sv)) =
           map with_sink al
         \<and> queue_value (exec self (serial 0 (length al)) (run_start self al mt sv)) = 0"
  using serial_run [OF assms, of "run_start self al mt sv" al] assms(2)
  by (simp add: run_start_simps all_done_def submitted_def)

lemma process_double_total: "\<forall>a d. \<exists>d'. process_double a d = Inr d'"
proof (intro allI)
  fix a d
  show "\<exists>d'. process_double a d = Inr d'"
    by (cases "(a, d)" rule: process_double.cases) simp_all
qed

subsection \<open>A run with no jobs\<close>

lemma empty_task_step: "tasks s = [] \<Longrightarrow> task_step self j s = s"
  by (simp add: task_step_def)

lemma empty_join:
  "tasks s = [] \<Longrightarrow> status s = Running \<Longrightarrow> pc s = Join \<Longrightarrow>
   exec self sched s =
     (if count_list sched Main = 0 then s
      else s \<lparr> events := events s @ [LogInfo], status := Returns (resp_dict s) \<rparr>)"
proof (induction sched)
  case Nil
  then show ?case by simp
next
  case (Cons a sched)
  show ?case
  proof (cases a)
    case Main
    with Cons.prems show ?thesis
      by (simp add: step_def main_step_def all_done_def exec_stopped)
  next
    case (Worker j)
    with Cons show ?thesis
      by (simp add: step_def empty_task_step)
  qed
qed

lemma empty_poll:
  "tasks s = [] \<Longrightarrow> status s = Running \<Longrightarrow> pc s = Poll \<Longrightarrow> todo s = [] \<Longrightarrow>
   exec self sched s =
     (if count_list sched Main = 0 then s
      else if count_list sched Main = 1 then s \<lparr> pc := Join \<rparr>
      else s \<lparr> pc := Join, events := events s @ [LogInfo],
               status := Returns (resp_dict s) \<rparr>)"
proof (induction sched)
  case Nil
  then show ?case by simp
next
  case (Cons a sched)
  show ?case
  proof (cases a)
    case Main
    with Cons.prems show ?thesis
      by (simp add: step_def main_step_def empty_join)
  next
    case (Worker j)
    with Cons show ?thesis
      by (simp add: step_def empty_task_step)
  qed
qed

lemma no_invoke_at_start: "filter is_invoke (events (run_start self al mt sv)) = []"
  by (auto simp add: run_start_def run_init_args_def Let_def filter_empty_conv)

subsection \<open>The lock a worker holds, and the gate with a lock\<close>

lemma par_lock_main [simp]: "par_lock (main_step self s) = par_lock s"
  by (simp add: main_step_def all_done_def split: pc.splits list.splits)

lemma par_lock_task [simp]: "par_lock (task_step self j s) = par_lock s"
  by (simp add: task_step_def error_callback_def split: tstate.splits sum.splits)

lemma par_lock_step [simp]: "par_lock (step self a s) = par_lock s"
  by (cases a) (simp_all add: step_def)

lemma par_lock_exec [simp]: "par_lock (exec self sched s) = par_lock s"
  by (induction sched arbitrary: s) simp_all

lemma par_lock_thread_pool:
  "1 \<le> n_jobs self \<Longrightarrow>
   par_lock (run_start self al True sv) = replicate (nat (n_jobs self)) None"
  by (simp add: run_start_def Let_def split: prod.splits)

lemma par_lock_process_pool:
  "1 \<le> n_jobs self \<Longrightarrow>
   par_lock (run_start self al False sv) = replicate (nat (n_jobs self)) (Some LockRef)"
  by (auto simp add: run_start_def run_init_args_def Let_def split: prod.splits if_splits)

lemma gate_with_lock:
  assumes "\<not> held g"
  shows "enter_crit_sec self (Some l) args kwargs g =
           ((case fst (critical_section self args kwargs (shared g)) of
               Inl e \<Rightarrow> Raise e
             | Inr v \<Rightarrow> Return v),
            g \<lparr> held := False,
                shared := snd (critical_section self args kwargs (shared g)),
                trace := trace g @ [Acquire, Work args kwargs, Release] \<rparr>)"
  using assms
  by (simp add: enter_crit_sec_def Let_def split: prod.splits sum.splits)

subsection \<open>The example runs, evaluated\<close>

lemma failing_run_eq:
  "failing_run =
     \<lparr> queue_value = 1, resp_dict = [], todo = [[StrV ''B'']], pc = Poll,
       tasks = [Task [StrV ''bad'', SinkRef] Executing], processes = 2,
       par_lock = [Some LockRef, Some LockRef],
       events = [InitChild 0 [LockRef], InitChild 1 [LockRef],
                 Invoke 0 [StrV ''bad'', SinkRef]],
       status = Running \<rparr>"
  by (simp add: failing_run_def run_defs upt_rec eval_nat_numeral)

section \<open>The claims\<close>

text \<open>
  Claim C1. When the logic of a job raises, the job is left waiting for the pool's error
  callback; the callback logs the exception and ends the process with exit status 1.
  From the moment the logic has raised, no continuation of the run makes \<^verbatim>\<open>run\<close>
  return a result dictionary, and the process has exited with status 1 as soon as the
  callback of that job has been delivered.
\<close>

theorem job_failure_exits:
  assumes "status s = Running" and "i < length (tasks s)"
    and "tstate (tasks s ! i) = Executing"
    and "process self (targs (tasks s ! i)) (resp_dict s) = Inl e"
  shows "step self (Worker i) s = set_tstate i (Raised e) s
         \<and> step self (Worker i) (set_tstate i (Raised e) s) =
             (set_tstate i (Raised e) s)
               \<lparr> events := events s @ [LogError e], status := Exited 1 \<rparr>
         \<and> status (exec self sched (set_tstate i (Raised e) s)) \<noteq> Returns d
         \<and> status (exec self (sched @ [Worker i]) (set_tstate i (Raised e) s)) = Exited 1"
proof -
  let ?s1 = "set_tstate i (Raised e) s"
  have s1: "step self (Worker i) s = ?s1"
    using assms by (simp add: step_def task_step_def)
  have f: "failed_at i e ?s1"
    using assms by (simp add: failed_at_def)
  have cb: "step self (Worker i) ?s1 =
            ?s1 \<lparr> events := events s @ [LogError e], status := Exited 1 \<rparr>"
    using assms by (simp add: step_def task_step_def error_callback_def)
  have fx: "failed_at i e (exec self sched ?s1)"
    using f by (rule failed_at_exec)
  then have st: "status (exec self sched ?s1) \<noteq> Returns d"
    by (auto simp add: failed_at_def)
  have ex: "status (exec self (sched @ [Worker i]) ?s1) = Exited 1"
    using failed_at_callback [OF fx] by (simp add: exec_append)
  show ?thesis using s1 cb st ex by simp
qed

text \<open>
  The first of two jobs raises: its callback logs the error, and whatever the control
  thread and the second job do in between, the process ends with status 1.
\<close>

theorem job_failure_exits_witness:
  "step (init_ex 4 2 1) (Worker 0) failing_run =
     set_tstate 0 (Raised (JobError ''bad'')) failing_run
   \<and> events (step (init_ex 4 2 1) (Worker 0)
         (set_tstate 0 (Raised (JobError ''bad'')) failing_run)) =
       [InitChild 0 [LockRef], InitChild 1 [LockRef], Invoke 0 [StrV ''bad'', SinkRef],
        LogError (JobError ''bad'')]
   \<and> status (exec (init_ex 4 2 1) ([Main, Main, Main, Main, Worker 1, Worker 1] @ [Worker 0])
         (set_tstate 0 (Raised (JobError ''bad'')) failing_run)) = Exited 1"
proof -
  have h1: "status failing_run = Running"
    by (simp add: failing_run_eq)
  have h2: "0 < length (tasks failing_run)"
    by (simp add: failing_run_eq)
  have h3: "tstate (tasks failing_run ! 0) = Executing"
    by (simp add: failing_run_eq)
  have h4: "process (init_ex 4 2 1) (targs (tasks failing_run ! 0)) (resp_dict failing_run) =
            Inl (JobError ''bad'')"
    by (simp add: failing_run_eq init_ex_def)
  show ?thesis
    using job_failure_exits [OF h1 h2 h3 h4, of "[Main, Main, Main, Main, Worker 1, Worker 1]"]
    by (simp add: failing_run_eq)
qed

text \<open>
  Claim C2, evaluated where it fails. Two workers, two jobs that return normally: the
  first job reads the counter (1) before the control thread admits the second job and
  writes its decrement (0) after, so the increment for the second job is lost. The counter
  is 0 while the second job is still queued, falls to -1 when that job finishes, and is
  still -1 when \<^verbatim>\<open>run\<close> has drained the pool and returned both results.
  Only the upper bound of the counter holds in every run.
\<close>

theorem counter_lost_update:
  "queue_value (exec (init_ex 4 2 1) (take 12 lost_update_schedule)
      (run_start (init_ex 4 2 1) [[StrV ''A''], [StrV ''B'']] False NoneV)) = 0
   \<and> tasks (exec (init_ex 4 2 1) (take 12 lost_update_schedule)
      (run_start (init_ex 4 2 1) [[StrV ''A''], [StrV ''B'']] False NoneV)) =
       [Task [StrV ''A'', SinkRef] Done, Task [StrV ''B'', SinkRef] Queued]
   \<and> queue_value (exec (init_ex 4 2 1) (take 16 lost_update_schedule)
      (run_start (init_ex 4 2 1) [[StrV ''A''], [StrV ''B'']] False NoneV)) = - 1
   \<and> queue_value (exec (init_ex 4 2 1) lost_update_schedule
      (run_start (init_ex 4 2 1) [[StrV ''A''], [StrV ''B'']] False NoneV)) = - 1
   \<and> status (exec (init_ex 4 2 1) lost_update_schedule
      (run_start (init_ex 4 2 1) [[StrV ''A''], [StrV ''B'']] False NoneV)) =
       Returns [(StrV ''A'', StrV ''A''), (StrV ''B'', StrV ''B'')]"
  by (simp add: run_defs lost_update_schedule_def upt_rec eval_nat_numeral)

text \<open>
  Claim C3, as stated, fails: on a host of 4 cores a worker limit of 0 stays 0, the pool
  of 0 workers is refused, and the job is never submitted.
\<close>

theorem zero_limit_kept_counterexample:
  "n_jobs (init_ex 4 0 1) = 0
   \<and> status (run_start (init_ex 4 0 1) [[StrV ''A'']] False NoneV) =
       Raises (ValueError ''Number of processes must be at least 1'')
   \<and> submitted (run_start (init_ex 4 0 1) [[StrV ''A'']] False NoneV) = []"
  by (simp add: run_defs)

text \<open>
  Claim C3, amended. A negative worker limit is resolved to the number of cores \<open>c\<close> of
  the host: the pool gets \<open>c\<close> workers, at every moment of every run at most \<open>c\<close> jobs
  are executing, and jobs are admitted and executed: when no job raises, the serial
  schedule submits and runs them all and \<^verbatim>\<open>run\<close> returns their results. A worker
  limit of 0 is kept as 0.
\<close>

theorem negative_limit_uses_all_cores:
  assumes "n < 0" and "1 \<le> c"
  shows "n_jobs (init c p cr g n w) = c
         \<and> processes (run_start (init c p cr g n w) al mt sv) = nat c
         \<and> executing (exec (init c p cr g n w) sched
              (run_start (init c p cr g n w) al mt sv)) \<le> nat c
         \<and> ((\<forall>a d. \<exists>d'. p a d = Inr d') \<longrightarrow>
              status (exec (init c p cr g n w) (serial 0 (length al))
                (run_start (init c p cr g n w) al mt sv)) =
              Returns (collect (init c p cr g n w) al []))
         \<and> n_jobs (init c p cr g 0 w) = 0"
proof -
  let ?self = "init c p cr g n w"
  have n: "n_jobs ?self = c"
    using assms by simp
  then have one: "1 \<le> n_jobs ?self"
    using assms by simp
  have pr: "processes (run_start ?self al mt sv) = nat c"
    using one n by (simp add: run_start_simps)
  have ex: "executing (exec ?self sched (run_start ?self al mt sv)) \<le> nat c"
    using executing_bound [OF one, of sched al mt sv] n by simp
  have ser: "(\<forall>a d. \<exists>d'. p a d = Inr d') \<longrightarrow>
             status (exec ?self (serial 0 (length al)) (run_start ?self al mt sv)) =
             Returns (collect ?self al [])"
  proof
    assume "\<forall>a d. \<exists>d'. p a d = Inr d'"
    then have "\<forall>a d. \<exists>d'. process ?self a d = Inr d'"
      by simp
    from serial_from_start [OF this one] show
      "status (exec ?self (serial 0 (length al)) (run_start ?self al mt sv)) =
       Returns (collect ?self al [])"
      by simp
  qed
  show ?thesis
    using n pr ex ser by simp
qed

text \<open>
  The default limit -1 on a host of 4 cores: 4 workers, never more than 4 jobs executing,
  and three jobs run to their results.
\<close>

theorem negative_limit_uses_all_cores_witness:
  "n_jobs (init_double 4 (- 1) 1) = 4
   \<and> processes (run_start (init_double 4 (- 1) 1)
        [[IntV 1], [IntV 2], [IntV 3]] False NoneV) = 4
   \<and> executing (exec (init_double 4 (- 1) 1) [Main, Main, Main, Main, Worker 0]
        (run_start (init_double 4 (- 1) 1) [[IntV 1], [IntV 2], [IntV 3]] False NoneV)) \<le> 4
   \<and> status (exec (init_double 4 (- 1) 1) (serial 0 (length [[IntV 1], [IntV 2], [IntV 3]]))
        (run_start (init_double 4 (- 1) 1) [[IntV 1], [IntV 2], [IntV 3]] False NoneV)) =
      Returns [(IntV 1, IntV 2), (IntV 2, IntV 4), (IntV 3, IntV 6)]"
proof -
  have h1: "(- 1 :: int) < 0" by simp
  have h2: "(1 :: int) \<le> 4" by simp
  show ?thesis
    using negative_limit_uses_all_cores [OF h1 h2, of process_double critical_section_ex
            get_shared_vars_ex 1 "[[IntV 1], [IntV 2], [IntV 3]]" False NoneV
            "[Main, Main, Main, Main, Worker 0]"]
          process_double_total
    by (simp add: init_double_def with_sink_def)
qed

text \<open>
  Claim C4, as stated, fails: with one worker, the first of two jobs raises and the
  process exits with only that job submitted; the second tuple is never submitted.
\<close>

theorem later_job_never_submitted_counterexample:
  "status (exec (init_ex 4 1 1) [Main, Main, Main, Main, Worker 0, Worker 0, Worker 0]
      (run_start (init_ex 4 1 1) [[StrV ''bad''], [StrV ''B'']] False NoneV)) = Exited 1
   \<and> submitted (exec (init_ex 4 1 1) [Main, Main, Main, Main, Worker 0, Worker 0, Worker 0]
      (run_start (init_ex 4 1 1) [[StrV ''bad''], [StrV ''B'']] False NoneV)) =
       [[StrV ''bad'', SinkRef]]"
  by (simp add: run_defs upt_rec eval_nat_numeral)

text \<open>
  Claim C4, amended. At every moment of every run, the argument tuples submitted so far
  are, in input order, the first tuples of the input sequence, each once and each with the
  result dictionary appended as its single trailing argument; when \<^verbatim>\<open>run\<close> returns,
  every tuple of the input has been submitted so. A run returns when the worker limit
  is at least 1 and no job raises: it does under the serial schedule.
\<close>

theorem submission_in_input_order:
  "submitted (exec self sched (run_start self al mt sv)) =
     map with_sink (take (length (tasks (exec self sched (run_start self al mt sv)))) al)
   \<and> (status (exec self sched (run_start self al mt sv)) = Returns d \<longrightarrow>
        submitted (exec self sched (run_start self al mt sv)) = map with_sink al)
   \<and> ((\<forall>a d. \<exists>d'. process self a d = Inr d') \<and> 1 \<le> n_jobs self \<longrightarrow>
        status (exec self (serial 0 (length al)) (run_start self al mt sv)) =
        Returns (collect self al []))"
  using submitted_prefix [of self sched al mt sv] submitted_all [of self sched al mt sv d]
    serial_from_start [of self al mt sv]
  by blast

text \<open>Two jobs on two workers, run serially: both submitted once, in order, and returned.\<close>

theorem submission_in_input_order_witness:
  "submitted (exec (init_double 4 2 1) (serial 0 (length [[IntV 1], [IntV 2]]))
      (run_start (init_double 4 2 1) [[IntV 1], [IntV 2]] False NoneV)) =
     [[IntV 1, SinkRef], [IntV 2, SinkRef]]
   \<and> status (exec (init_double 4 2 1) (serial 0 (length [[IntV 1], [IntV 2]]))
      (run_start (init_double 4 2 1) [[IntV 1], [IntV 2]] False NoneV)) =
     Returns [(IntV 1, IntV 2), (IntV 2, IntV 4)]"
proof -
  let ?self = "init_double 4 2 1"
  let ?al = "[[IntV 1], [IntV 2]]"
  let ?x = "exec ?self (serial 0 (length ?al)) (run_start ?self ?al False NoneV)"
  note t = submission_in_input_order [of ?self "serial 0 (length ?al)" ?al False NoneV
             "[(IntV 1, IntV 2), (IntV 2, IntV 4)]"]
  have h: "(\<forall>a d. \<exists>d'. process ?self a d = Inr d') \<and> 1 \<le> n_jobs ?self"
    using process_double_total by (simp add: init_double_def)
  from t h have "status ?x = Returns (collect ?self ?al [])"
    by blast
  then have r: "status ?x = Returns [(IntV 1, IntV 2), (IntV 2, IntV 4)]"
    by (simp add: init_double_def with_sink_def)
  from t r have "submitted ?x = map with_sink ?al"
    by blast
  then show ?thesis
    using r by (simp add: with_sink_def)
qed

text \<open>
  Claim C5, evaluated where it fails. With \<^verbatim>\<open>use_multithreading=True\<close> the thread
  pool is built without initializer: no worker runs \<^verbatim>\<open>init_child\<close>, although
  \<^verbatim>\<open>get_shared_vars\<close> has been called, no worker has \<^verbatim>\<open>par_lock\<close>, and the
  gate raises \<^verbatim>\<open>NameError\<close> without calling the critical section. The same call with
  a process pool runs the initializer once in each of the two workers, with the lock handle
  and the extra shared value, and the gate works.
\<close>

theorem thread_pool_skips_initializer:
  "events (run_start (init_ex 4 2 1) [[StrV ''A'']] True (IntV 7)) = [GetSharedVars (IntV 7)]
   \<and> par_lock (run_start (init_ex 4 2 1) [[StrV ''A'']] True (IntV 7)) = [None, None]
   \<and> enter_crit_sec (init_ex 4 2 1)
        (par_lock (run_start (init_ex 4 2 1) [[StrV ''A'']] True (IntV 7)) ! 0)
        [StrV ''x''] [] \<lparr> held = False, shared = [], trace = [] \<rparr> =
      (Raise (NameError ''name 'par_lock' is not defined''),
       \<lparr> held = False, shared = [], trace = [] \<rparr>)
   \<and> events (run_start (init_ex 4 2 1) [[StrV ''A'']] False (IntV 7)) =
       [GetSharedVars (IntV 7), InitChild 0 [LockRef, IntV 7], InitChild 1 [LockRef, IntV 7]]
   \<and> par_lock (run_start (init_ex 4 2 1) [[StrV ''A'']] False (IntV 7)) =
       [Some LockRef, Some LockRef]
   \<and> enter_crit_sec (init_ex 4 2 1)
        (par_lock (run_start (init_ex 4 2 1) [[StrV ''A'']] False (IntV 7)) ! 0)
        [StrV ''x''] [] \<lparr> held = False, shared = [], trace = [] \<rparr> =
      (Return (IntV 1),
       \<lparr> held = False, shared = [(StrV ''x'', IntV 1)],
         trace = [Acquire, Work [StrV ''x''] [], Release] \<rparr>)"
  by (simp add: run_defs enter_crit_sec_def upt_rec eval_nat_numeral)

text \<open>
  Claim C6, proved where it holds and evaluated where it fails. In every run on a thread
  pool, at every moment and in every worker, \<^verbatim>\<open>par_lock\<close> is undefined, and the gate
  raises \<^verbatim>\<open>NameError\<close> without acquiring a lock, calling the critical section or
  releasing anything. In every run on a process pool each worker holds the lock handle,
  and once the lock is free the gate acquires it, calls the critical section with the given
  arguments, releases the lock whether the critical section returned or raised, and gives
  the caller the value returned or the exception raised.
\<close>

theorem gate_needs_installed_lock:
  assumes "1 \<le> n_jobs self" and "w < nat (n_jobs self)"
  shows "par_lock (exec self sched (run_start self al True sv)) ! w = None
         \<and> enter_crit_sec self (par_lock (exec self sched (run_start self al True sv)) ! w)
              args kwargs g =
            (Raise (NameError ''name 'par_lock' is not defined''), g)
         \<and> par_lock (exec self sched (run_start self al False sv)) ! w = Some LockRef
         \<and> (\<not> held g \<longrightarrow>
              enter_crit_sec self (par_lock (exec self sched (run_start self al False sv)) ! w)
                args kwargs g =
              ((case fst (critical_section self args kwargs (shared g)) of
                  Inl e \<Rightarrow> Raise e
                | Inr v \<Rightarrow> Return v),
               g \<lparr> held := False,
                   shared := snd (critical_section self args kwargs (shared g)),
                   trace := trace g @ [Acquire, Work args kwargs, Release] \<rparr>))"
proof -
  have t: "par_lock (exec self sched (run_start self al True sv)) ! w = None"
    using assms by (simp add: par_lock_thread_pool)
  have p: "par_lock (exec self sched (run_start self al False sv)) ! w = Some LockRef"
    using assms by (simp add: par_lock_process_pool)
  show ?thesis
    unfolding t p using gate_with_lock [of g self LockRef args kwargs]
    by (simp add: enter_crit_sec_def)
qed

text \<open>
  One job on two workers, while the job logic runs in worker 0: on a thread pool the gate
  raises \<^verbatim>\<open>NameError\<close> and leaves the shared state and the trace untouched; on a
  process pool the same call acquires, calls, releases and returns.
\<close>

theorem gate_needs_installed_lock_witness:
  "enter_crit_sec (init_ex 4 2 1)
     (par_lock (exec (init_ex 4 2 1) [Main, Main, Main, Main, Worker 0]
        (run_start (init_ex 4 2 1) [[StrV ''A'']] True NoneV)) ! 0)
     [StrV ''x''] [] \<lparr> held = False, shared = [], trace = [] \<rparr> =
     (Raise (NameError ''name 'par_lock' is not defined''),
      \<lparr> held = False, shared = [], trace = [] \<rparr>)
   \<and> enter_crit_sec (init_ex 4 2 1)
     (par_lock (exec (init_ex 4 2 1) [Main, Main, Main, Main, Worker 0]
        (run_start (init_ex 4 2 1) [[StrV ''A'']] False NoneV)) ! 0)
     [StrV ''x''] [] \<lparr> held = False, shared = [], trace = [] \<rparr> =
     (Return (IntV 1),
      \<lparr> held = False, shared = [(StrV ''x'', IntV 1)],
        trace = [Acquire, Work [StrV ''x''] [], Release] \<rparr>)"
proof -
  let ?self = "init_ex 4 2 1"
  let ?g = "\<lparr> held = False, shared = [], trace = [] \<rparr>"
  let ?run = "\<lambda>mt. exec ?self [Main, Main, Main, Main, Worker 0]
                 (run_start ?self [[StrV ''A'']] mt NoneV)"
  have h1: "1 \<le> n_jobs ?self"
    by (simp add: init_ex_def)
  have h2: "0 < nat (n_jobs ?self)"
    by (simp add: init_ex_def)
  have h3: "\<not> held ?g"
    by simp
  note t = gate_needs_installed_lock [OF h1 h2, of "[Main, Main, Main, Main, Worker 0]"
             "[[StrV ''A'']]" NoneV "[StrV ''x'']" "[]" ?g]
  from t have a: "enter_crit_sec ?self (par_lock (?run True) ! 0) [StrV ''x''] [] ?g =
                  (Raise (NameError ''name 'par_lock' is not defined''), ?g)"
    by blast
  from t h3 have b: "enter_crit_sec ?self (par_lock (?run False) ! 0) [StrV ''x''] [] ?g =
        ((case fst (critical_section ?self [StrV ''x''] [] (shared ?g)) of
            Inl e \<Rightarrow> Raise e
          | Inr v \<Rightarrow> Return v),
         ?g \<lparr> held := False,
              shared := snd (critical_section ?self [StrV ''x''] [] (shared ?g)),
              trace := trace ?g @ [Acquire, Work [StrV ''x''] [] , Release] \<rparr>)"
    by blast
  show ?thesis
    unfolding a b by (simp add: init_ex_def)
qed

text \<open>
  Claim C7. The job logic and the critical section of the base class raise
  \<^verbatim>\<open>NotImplementedError\<close> at every call, so at the first one, whatever the
  arguments: the call returns no value, \<^verbatim>\<open>_execute\<close> passes the exception on without
  decrementing the counter, and the gate passes it on after releasing the lock.
\<close>

theorem unimplemented_extension_points_raise:
  "process (init_base c n w) args d = Inl (NotImplementedError not_defined)
   \<and> fst (critical_section (init_base c n w) args kwargs sh) = Inl (NotImplementedError not_defined)
   \<and> execute (init_base c n w) args (d, q) = Inl (NotImplementedError not_defined)
   \<and> fst (enter_crit_sec (init_base c n w) (Some l) args kwargs
            \<lparr> held = False, shared = sh, trace = tr \<rparr>) = Raise (NotImplementedError not_defined)"
  by (simp add: init_base_def process_base_def critical_section_base_def execute_def
      enter_crit_sec_def)

text \<open>
  Claim C8. The constructor replaces a negative \<^verbatim>\<open>waiting_time\<close> by 3600 seconds and
  keeps any other one, 0 included; when the control thread polls a full pool it sleeps for
  exactly that resolved time before it polls again.
\<close>

theorem poll_interval_resolved:
  assumes "pc s = Poll" and "todo s = a # r"
    and "\<not> queue_value s < n_jobs (init c p cr g n w)"
  shows "waiting_time (init c p cr g n w) = (if w < 0 then 3600 else w)
         \<and> main_step (init c p cr g n w) s =
             s \<lparr> events := events s @
                   [LogDebug (n_jobs (init c p cr g n w)) (if w < 0 then 3600 else w),
                    Sleep (if w < 0 then 3600 else w)] \<rparr>
         \<and> pc (main_step (init c p cr g n w) s) = Poll"
  using assms by (auto simp add: main_step_def)

text \<open>Waiting times -5, 0 and 7 with one busy worker: sleeps of 3600, 0 and 7 seconds.\<close>

theorem poll_interval_resolved_witness:
  "main_step (init_ex 4 1 (- 5)) full_pool =
     full_pool \<lparr> events := [LogDebug 1 3600, Sleep 3600] \<rparr>
   \<and> main_step (init_ex 4 1 0) full_pool =
     full_pool \<lparr> events := [LogDebug 1 0, Sleep 0] \<rparr>
   \<and> main_step (init_ex 4 1 7) full_pool =
     full_pool \<lparr> events := [LogDebug 1 7, Sleep 7] \<rparr>"
proof -
  have h1: "pc full_pool = Poll"
    by (simp add: full_pool_def)
  have h2: "todo full_pool = [StrV ''B''] # []"
    by (simp add: full_pool_def)
  have h3: "\<not> queue_value full_pool <
              n_jobs (init 4 process_ex critical_section_ex get_shared_vars_ex 1 w)" for w
    by (simp add: full_pool_def)
  show ?thesis
    using poll_interval_resolved [OF h1 h2 h3, of "- 5"]
      poll_interval_resolved [OF h1 h2 h3, of 0]
      poll_interval_resolved [OF h1 h2 h3, of 7]
    by (simp add: full_pool_def init_ex_def)
qed

text \<open>
  Claim C9, as stated, fails: with a worker limit of 0 the pool of 0 workers is refused
  and \<^verbatim>\<open>run\<close> raises \<^verbatim>\<open>ValueError\<close> instead of returning an empty dictionary.
\<close>

theorem empty_run_zero_limit_counterexample:
  "status (exec (init_ex 4 0 1) [Main, Main] (run_start (init_ex 4 0 1) [] False NoneV)) =
     Raises (ValueError ''Number of processes must be at least 1'')"
  by (simp add: run_defs)

text \<open>
  Claim C9, amended. With a worker limit of at least 1, a run on the empty job sequence
  submits no job and never calls the job logic, whatever the schedule, and it returns the
  empty dictionary once the control thread has taken its two steps (leaving the loop and
  closing the pool, then joining it).
\<close>

theorem empty_run_returns_empty:
  assumes "1 \<le> n_jobs self"
  shows "submitted (exec self sched (run_start self [] mt sv)) = []
         \<and> invoked (exec self sched (run_start self [] mt sv)) = []
         \<and> (status (exec self sched (run_start self [] mt sv)) = Running
              \<or> status (exec self sched (run_start self [] mt sv)) = Returns [])
         \<and> (2 \<le> count_list sched Main \<longrightarrow>
              status (exec self sched (run_start self [] mt sv)) = Returns [])"
proof -
  let ?s = "run_start self [] mt sv"
  have e: "exec self sched ?s =
     (if count_list sched Main = 0 then ?s
      else if count_list sched Main = 1 then ?s \<lparr> pc := Join \<rparr>
      else ?s \<lparr> pc := Join, events := events ?s @ [LogInfo],
               status := Returns (resp_dict ?s) \<rparr>)"
    using assms by (intro empty_poll) (simp_all add: run_start_simps)
  have i: "filter is_invoke (events ?s) = []"
    by (rule no_invoke_at_start)
  show ?thesis
    unfolding e using assms i
    by (simp add: submitted_def invoked_def run_start_simps)
qed

text \<open>
  Two workers and no job: nothing submitted or invoked when a worker is scheduled between
  the two steps of the control thread, and the empty dictionary is returned.
\<close>

theorem empty_run_returns_empty_witness:
  "submitted (exec (init_ex 4 2 1) [Main, Worker 0, Main] (run_start (init_ex 4 2 1) [] False NoneV)) = []
   \<and> invoked (exec (init_ex 4 2 1) [Main, Worker 0, Main] (run_start (init_ex 4 2 1) [] False NoneV)) = []
   \<and> status (exec (init_ex 4 2 1) [Main, Worker 0, Main] (run_start (init_ex 4 2 1) [] False NoneV)) =
       Returns []"
proof -
  have h: "1 \<le> n_jobs (init_ex 4 2 1)"
    by (simp add: init_ex_def)
  have c: "2 \<le> count_list [Main, Worker 0, Main] Main"
    by simp
  from empty_run_returns_empty [OF h, of "[Main, Worker 0, Main]" False NoneV] c
  show ?thesis
    by blast
qed

text \<open>
  Claim C10. A falsy \<^verbatim>\<open>shared_vars\<close> takes the branch of line 143: the run starts
  exactly as with the default \<^verbatim>\<open>None\<close>, \<^verbatim>\<open>get_shared_vars\<close> is not called, the
  initializer arguments are the lock handle alone, and the only events before the loop are
  the initializer calls of a process pool, each with the lock handle alone.
\<close>

theorem falsy_shared_vars_ignored:
  assumes "\<not> truthy sv"
  shows "run_init_args self sv = ([], [LockRef])
         \<and> run_start self al mt sv = run_start self al mt NoneV
         \<and> events (run_start self al mt sv) =
             (if n_jobs self < 1 \<or> mt then []
              else map (\<lambda>w. InitChild w [LockRef]) [0..<nat (n_jobs self)])"
  using assms by (simp add: run_start_def run_init_args_def Let_def)

text \<open>An empty dictionary, an empty list, 0 and \<^verbatim>\<open>None\<close> on a process pool of two workers.\<close>

theorem falsy_shared_vars_ignored_witness:
  "events (run_start (init_ex 4 2 1) [[StrV ''A'']] False (DictV [])) =
     [InitChild 0 [LockRef], InitChild 1 [LockRef]]
   \<and> events (run_start (init_ex 4 2 1) [[StrV ''A'']] False (ListV [])) =
     [InitChild 0 [LockRef], InitChild 1 [LockRef]]
   \<and> events (run_start (init_ex 4 2 1) [[StrV ''A'']] False (IntV 0)) =
     [InitChild 0 [LockRef], InitChild 1 [LockRef]]
   \<and> events (run_start (init_ex 4 2 1) [[StrV ''A'']] False NoneV) =
     [InitChild 0 [LockRef], InitChild 1 [LockRef]]
   \<and> run_init_args (init_ex 4 2 1) (DictV []) = ([], [LockRef])"
proof -
  have h1: "\<not> truthy (DictV [])" by simp
  have h2: "\<not> truthy (ListV [])" by simp
  have h3: "\<not> truthy (IntV 0)" by simp
  have h4: "\<not> truthy NoneV" by simp
  show ?thesis
    using falsy_shared_vars_ignored [OF h1, of "init_ex 4 2 1" "[[StrV ''A'']]" False]
      falsy_shared_vars_ignored [OF h2, of "init_ex 4 2 1" "[[StrV ''A'']]" False]
      falsy_shared_vars_ignored [OF h3, of "init_ex 4 2 1" "[[StrV ''A'']]" False]
      falsy_shared_vars_ignored [OF h4, of "init_ex 4 2 1" "[[StrV ''A'']]" False]
    by (simp add: init_ex_def upt_rec eval_nat_numeral)
qed

end
